theory Spec2Isabelle
  imports Main "HOL-Library.Sublist"
begin

section \<open>Strings of the segmenter\<close>

text \<open>
  The segmenter \<^verbatim>\<open>detectParagraphs\<close> of \<^verbatim>\<open>KnowledgeBaseService\<close> works on
  JavaScript strings. A JavaScript string is a sequence of UTF-16 code units, and
  \<^verbatim>\<open>length\<close>, \<^verbatim>\<open>endsWith\<close>, \<^verbatim>\<open>trim\<close> and the regular expressions of the
  function (none of which carries the \<^verbatim>\<open>u\<close> flag) all count and compare code units.
  A code unit is modelled by its numeric value, a string by the list of its code units.
  Every code unit is below \<open>0x10000\<close>; the universally quantified theorems below hold for
  all lists of numbers, hence for all JavaScript strings, and every concrete input used
  below is a list of code units.
\<close>

type_synonym jschar = nat
type_synonym jsstring = "jschar list"

text \<open>An ASCII literal as a JavaScript string.\<close>

definition js :: "string \<Rightarrow> jsstring" where
  "js s = map of_char s"

abbreviation TAB :: jschar where "TAB \<equiv> 0x09"
abbreviation LF :: jschar where "LF \<equiv> 0x0A"
abbreviation CR :: jschar where "CR \<equiv> 0x0D"
abbreviation SP :: jschar where "SP \<equiv> 0x20"

subsection \<open>Character classes of the regular expressions\<close>

text \<open>\<^verbatim>\<open>\d\<close>: the ASCII digits.\<close>

definition is_digit :: "jschar \<Rightarrow> bool" where
  "is_digit c = (0x30 \<le> c \<and> c \<le> 0x39)"

text \<open>\<^verbatim>\<open>\w\<close>: ASCII letters, digits and the underscore; \<^verbatim>\<open>\W\<close> is its complement.\<close>

definition is_letter_or_underscore :: "jschar \<Rightarrow> bool" where
  "is_letter_or_underscore c = ((0x41 \<le> c \<and> c \<le> 0x5A) \<or> (0x61 \<le> c \<and> c \<le> 0x7A) \<or> c = 0x5F)"

definition is_word :: "jschar \<Rightarrow> bool" where
  "is_word c = (is_letter_or_underscore c \<or> is_digit c)"

text \<open>
  The line terminators of ECMAScript: LF, CR, LINE SEPARATOR and PARAGRAPH SEPARATOR.
  The pattern character \<^verbatim>\<open>.\<close> (without the \<^verbatim>\<open>s\<close> flag) matches every code unit
  but these.
\<close>

definition is_line_terminator :: "jschar \<Rightarrow> bool" where
  "is_line_terminator c = (c = LF \<or> c = CR \<or> c = 0x2028 \<or> c = 0x2029)"

text \<open>
  \<^verbatim>\<open>\s\<close>, which is also what \<^verbatim>\<open>String.prototype.trim\<close> strips: the ECMAScript
  white space (TAB, VT, FF, SP, NBSP, ZWNBSP and the Unicode space separators) and the
  line terminators.
\<close>

definition is_space :: "jschar \<Rightarrow> bool" where
  "is_space c =
     (c = TAB \<or> c = 0x0B \<or> c = 0x0C \<or> c = SP \<or> c = 0xA0 \<or> c = 0x1680 \<or>
      (0x2000 \<le> c \<and> c \<le> 0x200A) \<or> c = 0x202F \<or> c = 0x205F \<or> c = 0x3000 \<or>
      c = 0xFEFF \<or> is_line_terminator c)"

text \<open>\<^verbatim>\<open>[ \t]\<close>: the horizontal blanks of the third replacement.\<close>

definition is_blank :: "jschar \<Rightarrow> bool" where
  "is_blank c = (c = SP \<or> c = TAB)"

definition is_LF :: "jschar \<Rightarrow> bool" where
  "is_LF c = (c = LF)"

text \<open>
  The ten sentence terminators, tested by the chain of \<^verbatim>\<open>endsWith\<close> calls on
  \<^verbatim>\<open>currentParagraph\<close> and by \<^verbatim>\<open>/[...]$/\<close> on the line (the same ten characters
  in both places): the full-width ideographic full stop, exclamation mark, question
  mark, colon and semicolon, and their ASCII counterparts.
\<close>

definition is_terminator :: "jschar \<Rightarrow> bool" where
  "is_terminator c =
     (c = 0x3002 \<or> c = 0xFF01 \<or> c = 0xFF1F \<or> c = 0xFF1A \<or> c = 0xFF1B \<or>
      c = 0x2E \<or> c = 0x21 \<or> c = 0x3F \<or> c = 0x3A \<or> c = 0x3B)"

text \<open>The CJK numerals of the chapter-heading pattern, and its three closing characters.\<close>

definition is_cjk_numeral :: "jschar \<Rightarrow> bool" where
  "is_cjk_numeral c =
     (c = 0x4E00 \<or> c = 0x4E8C \<or> c = 0x4E09 \<or> c = 0x56DB \<or> c = 0x4E94 \<or> c = 0x516D \<or>
      c = 0x4E03 \<or> c = 0x516B \<or> c = 0x4E5D \<or> c = 0x5341 \<or> c = 0x767E \<or> c = 0x5343 \<or>
      c = 0x4E07)"

definition is_section_word :: "jschar \<Rightarrow> bool" where
  "is_section_word c = (c = 0x7AE0 \<or> c = 0x8282 \<or> c = 0x7BC7)"

section \<open>String operations\<close>

text \<open>\<^verbatim>\<open>s.trim()\<close>: strip white space and line terminators from both ends.\<close>

definition trim :: "jsstring \<Rightarrow> jsstring" where
  "trim s = rev (dropWhile is_space (rev (dropWhile is_space s)))"

text \<open>\<^verbatim>\<open>s.endsWith(c)\<close> for one of the ten terminators, and \<^verbatim>\<open>/[...]$/\<close>.\<close>

definition ends_with_terminator :: "jsstring \<Rightarrow> bool" where
  "ends_with_terminator s = (case rev s of [] \<Rightarrow> False | c # _ \<Rightarrow> is_terminator c)"

text \<open>
  \<^verbatim>\<open>s.split(/\n/)\<close>: the pieces between the line feeds. The empty string gives one
  empty piece; trailing empty pieces are kept.
\<close>

fun split_lines :: "jsstring \<Rightarrow> jsstring list" where
  "split_lines [] = [[]]"
| "split_lines (c # cs) =
     (if c = LF then [] # split_lines cs
      else (case split_lines cs of [] \<Rightarrow> [[c]] | l # ls \<Rightarrow> (c # l) # ls))"

section \<open>Normalization\<close>

text \<open>
  \<^verbatim>\<open>.replace(/\r\n/g, '\n')\<close>: scanning from the left, every CR that is immediately
  followed by LF is replaced, with that LF, by one LF; matches do not overlap and the
  replacement is not scanned again.
\<close>

fun replace_crlf :: "jsstring \<Rightarrow> jsstring" where
  "replace_crlf (c # d # cs) =
     (if c = CR \<and> d = LF then LF # replace_crlf cs else c # replace_crlf (d # cs))"
| "replace_crlf cs = cs"

text \<open>
  \<^verbatim>\<open>.replace(/\n{3,}/g, '\n\n')\<close>: the quantifier is greedy, so a match is a maximal run
  of line feeds; a run of three or more becomes two line feeds, a shorter run is no match
  and stays.
\<close>

function collapse_newlines :: "jsstring \<Rightarrow> jsstring" where
  "collapse_newlines [] = []"
| "collapse_newlines (c # cs) =
     (if is_LF c then
        (if 3 \<le> length (c # takeWhile is_LF cs) then [LF, LF] else c # takeWhile is_LF cs)
          @ collapse_newlines (dropWhile is_LF cs)
      else c # collapse_newlines cs)"
  by pat_completeness auto
termination
  by (relation "measure length") (auto simp: less_Suc_eq_le length_dropWhile_le)

text \<open>
  \<^verbatim>\<open>.replace(/[ \t]+/g, ' ')\<close>: every maximal run of spaces and tabs becomes one space.
\<close>

function collapse_blanks :: "jsstring \<Rightarrow> jsstring" where
  "collapse_blanks [] = []"
| "collapse_blanks (c # cs) =
     (if is_blank c then SP # collapse_blanks (dropWhile is_blank cs)
      else c # collapse_blanks cs)"
  by pat_completeness auto
termination
  by (relation "measure length") (auto simp: less_Suc_eq_le length_dropWhile_le)

text \<open>The chain of the three replacements and the final \<^verbatim>\<open>trim\<close>.\<close>

definition normalizeText :: "jsstring \<Rightarrow> jsstring" where
  "normalizeText text = trim (collapse_blanks (collapse_newlines (replace_crlf text)))"

section \<open>Boundary detection\<close>

text \<open>\<^verbatim>\<open>/^[\d\<bullet>\-\*]/.test(line)\<close>: a digit, the bullet U+2022, a hyphen or an asterisk.\<close>

definition starts_with_list_marker :: "jsstring \<Rightarrow> bool" where
  "starts_with_list_marker line =
     (case line of [] \<Rightarrow> False
      | c # _ \<Rightarrow> is_digit c \<or> c = 0x2022 \<or> c = 0x2D \<or> c = 0x2A)"

text \<open>
  The structural marker, a pattern anchored at the start of the line with two
  alternatives: U+7B2C, one or more CJK numerals, then one of the three section words;
  or one or more digits, then a full stop or the ideographic comma U+3001. In both
  alternatives the class after the \<^verbatim>\<open>+\<close> is disjoint from the class under it, so
  backtracking cannot help: the alternative matches exactly when the maximal run is not
  empty and the character after it is in the closing class.
\<close>

definition run_then :: "(jschar \<Rightarrow> bool) \<Rightarrow> (jschar \<Rightarrow> bool) \<Rightarrow> jsstring \<Rightarrow> bool" where
  "run_then P Q s =
     (takeWhile P s \<noteq> [] \<and> (case dropWhile P s of [] \<Rightarrow> False | c # _ \<Rightarrow> Q c))"

definition starts_with_structural_marker :: "jsstring \<Rightarrow> bool" where
  "starts_with_structural_marker line =
     ((case line of [] \<Rightarrow> False
       | c # cs \<Rightarrow> c = 0x7B2C \<and> run_then is_cjk_numeral is_section_word cs) \<or>
      run_then is_digit (\<lambda>c. c = 0x2E \<or> c = 0x3001) line)"

text \<open>
  An array read \<^verbatim>\<open>lines[i]\<close>. Out of range JavaScript gives \<^verbatim>\<open>undefined\<close>, and the
  \<^verbatim>\<open>.trim()\<close> or \<^verbatim>\<open>.length\<close> the function applies to it would throw a TypeError:
  \<open>None\<close> stands for that exception.
\<close>

definition at :: "'a list \<Rightarrow> nat \<Rightarrow> 'a option" where
  "at xs i = (if i < length xs then Some (xs ! i) else None)"

text \<open>
  The disjunction \<^verbatim>\<open>shouldStartNewParagraph\<close>, with the short circuits of
  \<^verbatim>\<open>&&\<close> and \<^verbatim>\<open>||\<close>: \<^verbatim>\<open>lines[i-1]\<close> (the line before, untrimmed) is read only when the
  first two disjuncts are false, the line has fewer than 20 code units and \<open>i > 0\<close>.
\<close>

definition shouldStartNewParagraph ::
    "jsstring list \<Rightarrow> nat \<Rightarrow> jsstring \<Rightarrow> jsstring \<Rightarrow> bool option" where
  "shouldStartNewParagraph lines i currentParagraph line =
     (if currentParagraph \<noteq> [] \<and> ends_with_terminator currentParagraph then Some True
      else if starts_with_list_marker line then Some True
      else if length line < 20 \<and> 0 < i then
        (case at lines (i - 1) of
           None \<Rightarrow> None
         | Some prev \<Rightarrow> Some (40 < length prev \<or> starts_with_structural_marker line))
      else Some (starts_with_structural_marker line))"

text \<open>
  \<^verbatim>\<open>isContinuation\<close>: there is a next line, the line does not end in a sentence
  terminator, and the next line, trimmed, does not start with a structural marker.
\<close>

definition isContinuation :: "jsstring list \<Rightarrow> nat \<Rightarrow> jsstring \<Rightarrow> bool option" where
  "isContinuation lines i line =
     (if i < length lines - 1 \<and> \<not> ends_with_terminator line then
        (case at lines (i + 1) of
           None \<Rightarrow> None
         | Some nxt \<Rightarrow> Some (\<not> starts_with_structural_marker (trim nxt)))
      else Some False)"

text \<open>
  The state of the loop: the paragraphs pushed so far and \<^verbatim>\<open>currentParagraph\<close>
  (the empty string is the only falsy string). One iteration of the loop body:
\<close>

type_synonym grouper = "jsstring list \<times> jsstring"

definition step :: "jsstring list \<Rightarrow> nat \<Rightarrow> grouper \<Rightarrow> grouper option" where
  "step lines i st =
     (case st of (paragraphs, currentParagraph) \<Rightarrow>
      (case at lines i of
         None \<Rightarrow> None
       | Some raw \<Rightarrow>
          (let line = trim raw in
           if line = [] then
             (if currentParagraph \<noteq> [] then Some (paragraphs @ [currentParagraph], [])
              else Some (paragraphs, currentParagraph))
           else
             (case shouldStartNewParagraph lines i currentParagraph line of
                None \<Rightarrow> None
              | Some should \<Rightarrow>
                 if should \<and> currentParagraph \<noteq> [] then
                   Some (paragraphs @ [currentParagraph], line)
                 else
                   (case isContinuation lines i line of
                      None \<Rightarrow> None
                    | Some continuation \<Rightarrow>
                       if continuation then
                         Some (paragraphs,
                               if currentParagraph \<noteq> [] then currentParagraph @ [SP] @ line
                               else line)
                       else if currentParagraph \<noteq> [] then
                         Some (paragraphs @ [currentParagraph], line)
                       else Some (paragraphs, line))))))"

text \<open>\<^verbatim>\<open>for (let i = 0; i < lines.length; i++)\<close>, from index \<open>i\<close> on.\<close>

function loop :: "jsstring list \<Rightarrow> nat \<Rightarrow> grouper \<Rightarrow> grouper option" where
  "loop lines i st =
     (if i < length lines then
        (case step lines i st of None \<Rightarrow> None | Some st' \<Rightarrow> loop lines (Suc i) st')
      else Some st)"
  by pat_completeness auto
termination
  by (relation "measure (\<lambda>(lines, i, st). length lines - i)") auto

declare loop.simps [simp del]

text \<open>The paragraphs before the post-filter: the loop, then the last flush.\<close>

definition group_lines :: "jsstring list \<Rightarrow> jsstring list option" where
  "group_lines lines =
     (case loop lines 0 ([], []) of
        None \<Rightarrow> None
      | Some (paragraphs, currentParagraph) \<Rightarrow>
          Some (if currentParagraph \<noteq> [] then paragraphs @ [currentParagraph]
                else paragraphs))"

section \<open>Post-filter\<close>

text \<open>
  \<^verbatim>\<open>/^[\d\s\W]+$/.test(p)\<close>: \<open>p\<close> is not empty and each of its code units is a digit,
  white space or not a word character.
\<close>

definition noise_only :: "jsstring \<Rightarrow> bool" where
  "noise_only p = (p \<noteq> [] \<and> list_all (\<lambda>c. is_digit c \<or> is_space c \<or> \<not> is_word c) p)"

text \<open>
  \<^verbatim>\<open>/(.)\1{10,}/.test(p)\<close>: at some position stands a code unit that \<^verbatim>\<open>.\<close> matches
  (not a line terminator), followed by at least ten more copies of itself.
\<close>

fun has_repeated_run :: "jsstring \<Rightarrow> bool" where
  "has_repeated_run [] = False"
| "has_repeated_run (c # cs) =
     ((\<not> is_line_terminator c \<and> 10 \<le> length (takeWhile (\<lambda>d. d = c) cs)) \<or>
      has_repeated_run cs)"

text \<open>The callback of \<^verbatim>\<open>filter\<close>: three early \<^verbatim>\<open>return false\<close>, then \<^verbatim>\<open>return true\<close>.\<close>

definition keep_paragraph :: "jsstring \<Rightarrow> bool" where
  "keep_paragraph p =
     (if length p < 10 then False
      else if noise_only p then False
      else if has_repeated_run p then False
      else True)"

text \<open>The function: \<open>None\<close> is a thrown exception, \<open>Some\<close> the returned array.\<close>

definition detectParagraphs :: "jsstring \<Rightarrow> jsstring list option" where
  "detectParagraphs text =
     (case group_lines (split_lines (normalizeText text)) of
        None \<Rightarrow> None
      | Some paragraphs \<Rightarrow> Some (filter keep_paragraph (map trim paragraphs)))"

section \<open>Notions used to state the properties\<close>

text \<open>
  The lines of a block joined by single spaces, as the loop builds a paragraph:
  \<^verbatim>\<open>`${currentParagraph} ${line}`\<close>.
\<close>

fun join_sp :: "jsstring list \<Rightarrow> jsstring" where
  "join_sp [] = []"
| "join_sp [l] = l"
| "join_sp (l # m # ls) = l @ [SP] @ join_sp (m # ls)"

text \<open>The lines the loop does not skip: trimmed, and not empty after trimming.\<close>

definition nonblank_lines :: "jsstring list \<Rightarrow> jsstring list" where
  "nonblank_lines lines = filter (\<lambda>l. l \<noteq> []) (map trim lines)"

text \<open>Every CR of the string is immediately followed by LF: no lone CR.\<close>

fun every_cr_before_lf :: "jsstring \<Rightarrow> bool" where
  "every_cr_before_lf (c # d # cs) = ((c \<noteq> CR \<or> d = LF) \<and> every_cr_before_lf (d # cs))"
| "every_cr_before_lf [c] = (c \<noteq> CR)"
| "every_cr_before_lf [] = True"

section \<open>Evaluation on concrete inputs\<close>

text \<open>
  The definitions unfolded to run the model on a concrete string: the character classes,
  and the functions of the segmenter.
\<close>

lemmas class_defs = is_digit_def is_letter_or_underscore_def is_word_def
  is_line_terminator_def is_space_def is_blank_def is_LF_def is_terminator_def
  is_cjk_numeral_def is_section_word_def

lemmas seg_defs = js_def trim_def ends_with_terminator_def normalizeText_def
  starts_with_list_marker_def run_then_def starts_with_structural_marker_def at_def
  shouldStartNewParagraph_def isContinuation_def step_def loop.simps group_lines_def
  noise_only_def keep_paragraph_def detectParagraphs_def

section \<open>Trimming\<close>

text \<open>
  A string is a fixed point of \<^verbatim>\<open>trim\<close> exactly when it is empty or neither its first
  nor its last code unit is white space; the result of \<^verbatim>\<open>trim\<close> is such a string, a
  contiguous part of its argument.
\<close>

lemma trim_Nil: "trim [] = []"
  by (simp add: trim_def)

lemma dropWhile_fix: "(s = [] \<or> \<not> P (hd s)) \<Longrightarrow> dropWhile P s = s"
  by (cases s) auto

lemma dropWhile_fixD: "dropWhile P s = s \<Longrightarrow> s \<noteq> [] \<Longrightarrow> \<not> P (hd s)"
  by (metis hd_dropWhile)

lemma hd_dropWhile_rev:
  "dropWhile P (rev t) \<noteq> [] \<Longrightarrow> hd (rev (dropWhile P (rev t))) = hd t"
proof (induction t rule: rev_induct)
  case Nil then show ?case by simp
next
  case (snoc x xs)
  then show ?case by (cases xs) (auto split: if_splits)
qed

lemma trim_fixI: "s = [] \<or> (\<not> is_space (hd s) \<and> \<not> is_space (last s)) \<Longrightarrow> trim s = s"
proof (cases "s = []")
  case True then show ?thesis by (simp add: trim_def)
next
  case False
  assume "s = [] \<or> (\<not> is_space (hd s) \<and> \<not> is_space (last s))"
  with False have h: "\<not> is_space (hd s)" and l: "\<not> is_space (last s)" by auto
  have 1: "dropWhile is_space s = s" using h by (simp add: dropWhile_fix)
  have 2: "dropWhile is_space (rev s) = rev s"
    using l False by (intro dropWhile_fix) (simp add: hd_rev)
  show ?thesis by (simp add: trim_def 1 2)
qed

lemma trim_fixD:
  assumes "trim s = s" "s \<noteq> []"
  shows "\<not> is_space (hd s) \<and> \<not> is_space (last s)"
proof -
  have le1: "length (trim s) \<le> length (dropWhile is_space s)"
    unfolding trim_def using length_dropWhile_le [of is_space "rev (dropWhile is_space s)"] by simp
  have le2: "length (dropWhile is_space s) \<le> length s" by (rule length_dropWhile_le)
  from assms le1 le2 have "length (dropWhile is_space s) = length s" by simp
  then have 1: "dropWhile is_space s = s"
    by (metis append_eq_append_conv takeWhile_dropWhile_id self_append_conv2)
  with assms have "rev (dropWhile is_space (rev s)) = s" by (simp add: trim_def)
  then have 2: "dropWhile is_space (rev s) = rev s" by (metis rev_rev_ident)
  from 1 assms(2) have "\<not> is_space (hd s)" by (rule dropWhile_fixD)
  moreover from 2 assms(2) have "\<not> is_space (hd (rev s))" by (intro dropWhile_fixD) auto
  ultimately show ?thesis using assms(2) by (simp add: hd_rev)
qed

lemma trim_fix_iff: "trim s = s \<longleftrightarrow> (s = [] \<or> (\<not> is_space (hd s) \<and> \<not> is_space (last s)))"
  using trim_fixI trim_fixD by blast

lemma trim_ends:
  assumes "trim s \<noteq> []"
  shows "\<not> is_space (hd (trim s)) \<and> \<not> is_space (last (trim s))"
proof -
  let ?t = "dropWhile is_space s"
  from assms have ne: "dropWhile is_space (rev ?t) \<noteq> []" by (simp add: trim_def)
  have tne: "?t \<noteq> []"
    using ne by (metis dropWhile.simps(1) rev.simps(1))
  have "hd (trim s) = hd ?t" unfolding trim_def using ne by (rule hd_dropWhile_rev)
  moreover have "\<not> is_space (hd ?t)" using tne by (rule hd_dropWhile)
  moreover have "last (trim s) = hd (dropWhile is_space (rev ?t))"
    unfolding trim_def using ne by (simp add: last_rev)
  moreover have "\<not> is_space (hd (dropWhile is_space (rev ?t)))" using ne by (rule hd_dropWhile)
  ultimately show ?thesis by simp
qed

lemma trim_idem: "trim (trim s) = trim s"
  using trim_ends [of s] by (intro trim_fixI) blast

lemma set_trim: "set (trim s) \<subseteq> set s"
  unfolding trim_def by (metis set_rev set_dropWhileD subsetI)

lemma sublist_trim: "sublist (trim s) s"
  unfolding trim_def
  by (metis sublist_dropWhile sublist_rev_left sublist_order.order.trans)

lemma trim_all_space: "list_all is_space s \<Longrightarrow> trim s = []"
proof -
  assume "list_all is_space s"
  then have e: "dropWhile is_space s = []" by (induction s) auto
  show ?thesis unfolding trim_def e by simp
qed

section \<open>The loop never throws\<close>

text \<open>
  Inside the loop \<open>i\<close> is below the number of lines; \<^verbatim>\<open>lines[i-1]\<close> is read only when
  \<open>i > 0\<close> and \<^verbatim>\<open>lines[i+1]\<close> only when \<open>i < lines.length - 1\<close>, so every read is in
  range and every iteration returns a state.
\<close>

lemma shouldStart_total:
  "i < length lines \<Longrightarrow> \<exists>b. shouldStartNewParagraph lines i cur line = Some b"
  by (auto simp: shouldStartNewParagraph_def at_def)

lemma isContinuation_total: "\<exists>b. isContinuation lines i line = Some b"
  by (auto simp: isContinuation_def at_def)

lemma step_total:
  assumes "i < length lines"
  shows "\<exists>st'. step lines i st = Some st'"
proof -
  obtain ps cur where st: "st = (ps, cur)" by (cases st)
  obtain b where b: "shouldStartNewParagraph lines i cur (trim (lines ! i)) = Some b"
    using shouldStart_total [OF assms] by blast
  obtain c where c: "isContinuation lines i (trim (lines ! i)) = Some c"
    using isContinuation_total by blast
  show ?thesis using assms by (simp add: step_def st at_def b c Let_def)
qed

lemma loop_total: "\<exists>st'. loop lines i st = Some st'"
proof (induction lines i st rule: loop.induct)
  case (1 lines i st)
  show ?case
  proof (cases "i < length lines")
    case True
    then obtain st1 where s: "step lines i st = Some st1" using step_total by blast
    with True 1 show ?thesis by (simp add: loop.simps [of lines i st])
  next
    case False
    then show ?thesis by (simp add: loop.simps [of lines i st])
  qed
qed

lemma group_lines_total: "\<exists>ps. group_lines lines = Some ps"
  using loop_total [of lines 0 "([], [])"] by (auto simp: group_lines_def)

lemma detectParagraphs_total: "\<exists>ps. detectParagraphs text = Some ps"
  using group_lines_total [of "split_lines (normalizeText text)"]
  by (auto simp: detectParagraphs_def)

lemma detectParagraphs_eq:
  "\<exists>pre. group_lines (split_lines (normalizeText text)) = Some pre \<and>
     detectParagraphs text = Some (filter keep_paragraph (map trim pre))"
  using group_lines_total [of "split_lines (normalizeText text)"]
  by (auto simp: detectParagraphs_def)

section \<open>Paragraphs are blocks of consecutive lines\<close>

text \<open>
  The invariant of the loop: the paragraphs pushed so far and \<^verbatim>\<open>currentParagraph\<close> are
  the joins of consecutive blocks of the non-blank lines seen so far, the last block
  (possibly empty) being the one still open.
\<close>

lemma join_sp_snoc: "b \<noteq> [] \<Longrightarrow> join_sp (b @ [l]) = join_sp b @ [SP] @ l"
  by (induction b rule: join_sp.induct) auto

lemma join_sp_Nil_iff: "[] \<notin> set b \<Longrightarrow> join_sp b = [] \<longleftrightarrow> b = []"
  by (induction b rule: join_sp.induct) auto

lemma nonblank_lines_snoc:
  "nonblank_lines (ls @ [l]) = nonblank_lines ls @ (if trim l = [] then [] else [trim l])"
  by (simp add: nonblank_lines_def)

lemma nonblank_lines_no_Nil: "[] \<notin> set (nonblank_lines ls)"
  by (simp add: nonblank_lines_def)

lemma step_blocks:
  assumes i: "i < length lines"
    and st: "step lines i (map join_sp blocks, join_sp cb) = Some (ps', cur')"
    and nb: "[] \<notin> set blocks"
    and cc: "concat blocks @ cb = nonblank_lines (take i lines)"
  shows "\<exists>blocks' cb'. ps' = map join_sp blocks' \<and> cur' = join_sp cb' \<and>
           [] \<notin> set blocks' \<and> concat blocks' @ cb' = nonblank_lines (take (Suc i) lines)"
proof -
  let ?line = "trim (lines ! i)"
  have tk: "nonblank_lines (take (Suc i) lines) =
      concat blocks @ cb @ (if ?line = [] then [] else [?line])"
    using i cc by (simp add: take_Suc_conv_app_nth nonblank_lines_snoc)
  have "[] \<notin> set (concat blocks @ cb)" unfolding cc by (rule nonblank_lines_no_Nil)
  then have cbn: "[] \<notin> set cb" by simp
  then have cur: "join_sp cb = [] \<longleftrightarrow> cb = []" by (rule join_sp_Nil_iff)
  show ?thesis
  proof (cases "?line = []")
    case True
    show ?thesis
    proof (cases "cb = []")
      case True
      with \<open>?line = []\<close> st i nb tk show ?thesis
        by (intro exI [of _ blocks] exI [of _ "[]"]) (auto simp: step_def at_def)
    next
      case False
      with \<open>?line = []\<close> st i nb tk cur show ?thesis
        by (intro exI [of _ "blocks @ [cb]"] exI [of _ "[]"]) (auto simp: step_def at_def)
    qed
  next
    case False
    from st i False consider
        (push) "cb \<noteq> []" "ps' = map join_sp blocks @ [join_sp cb]" "cur' = ?line"
      | (join) "cb \<noteq> []" "ps' = map join_sp blocks" "cur' = join_sp cb @ [SP] @ ?line"
      | (start) "cb = []" "ps' = map join_sp blocks" "cur' = ?line"
      using cur
      by (auto simp: step_def at_def Let_def split: option.splits if_splits)
    then show ?thesis
    proof cases
      case push
      with False nb tk show ?thesis
        by (intro exI [of _ "blocks @ [cb]"] exI [of _ "[?line]"]) auto
    next
      case join
      with False nb tk show ?thesis
        by (intro exI [of _ blocks] exI [of _ "cb @ [?line]"]) (auto simp: join_sp_snoc)
    next
      case start
      with False nb tk show ?thesis
        by (intro exI [of _ blocks] exI [of _ "[?line]"]) auto
    qed
  qed
qed

lemma loop_blocks:
  assumes "loop lines i (map join_sp blocks, join_sp cb) = Some (ps', cur')"
    and "i \<le> length lines"
    and "[] \<notin> set blocks"
    and "concat blocks @ cb = nonblank_lines (take i lines)"
  shows "\<exists>blocks' cb'. ps' = map join_sp blocks' \<and> cur' = join_sp cb' \<and>
           [] \<notin> set blocks' \<and> concat blocks' @ cb' = nonblank_lines lines"
  using assms
proof (induction lines i "(map join_sp blocks, join_sp cb)" arbitrary: blocks cb rule: loop.induct)
  case (1 lines i)
  show ?case
  proof (cases "i < length lines")
    case True
    with "1.prems"(1) obtain ps1 cur1 where
      s: "step lines i (map join_sp blocks, join_sp cb) = Some (ps1, cur1)" and
      l: "loop lines (Suc i) (ps1, cur1) = Some (ps', cur')"
      by (auto simp: loop.simps [of lines i] split: option.splits)
    from step_blocks [OF True s "1.prems"(3,4)] obtain b1 c1 where
      b1: "ps1 = map join_sp b1" "cur1 = join_sp c1" "[] \<notin> set b1"
        "concat b1 @ c1 = nonblank_lines (take (Suc i) lines)" by blast
    show ?thesis
      using "1.hyps" [OF True s [unfolded b1(1,2)] l [unfolded b1(1,2)] _ b1(3,4)] True
      by simp
  next
    case False
    with "1.prems" show ?thesis
      by (auto simp: loop.simps [of lines i])
  qed
qed

lemma group_lines_blocks:
  "\<exists>blocks. group_lines lines = Some (map join_sp blocks) \<and> [] \<notin> set blocks \<and>
     concat blocks = nonblank_lines lines"
proof -
  obtain ps cur where l: "loop lines 0 ([], []) = Some (ps, cur)"
    using loop_total [of lines 0 "([], [])"] by auto
  have "loop lines 0 (map join_sp [], join_sp []) = Some (ps, cur)" using l by simp
  from loop_blocks [OF this] obtain blocks cb where
    b: "ps = map join_sp blocks" "cur = join_sp cb" "[] \<notin> set blocks"
      "concat blocks @ cb = nonblank_lines lines"
    by (auto simp: nonblank_lines_def)
  have "[] \<notin> set (concat blocks @ cb)" unfolding b(4) by (rule nonblank_lines_no_Nil)
  then have "[] \<notin> set cb" by simp
  then have cur: "join_sp cb = [] \<longleftrightarrow> cb = []" by (rule join_sp_Nil_iff)
  show ?thesis
  proof (cases "cb = []")
    case True
    with l b show ?thesis by (intro exI [of _ blocks]) (simp add: group_lines_def)
  next
    case False
    with l b cur show ?thesis by (intro exI [of _ "blocks @ [cb]"]) (simp add: group_lines_def)
  qed
qed

section \<open>The replacements of the normalization\<close>

text \<open>
  For each replacement: the strings it leaves unchanged, the patterns its result never
  contains, and the patterns of the earlier replacements that it does not bring back.
  A pattern is a short list of code units, and it occurs in a string when it is a
  contiguous part (\<open>sublist\<close>) of it.
\<close>

lemma not_sublist_trans: "\<not> sublist q s \<Longrightarrow> sublist t s \<Longrightarrow> \<not> sublist q t"
  using sublist_order.order.trans by blast

lemma not_sublist_ConsD: "\<not> sublist q (c # s) \<Longrightarrow> \<not> sublist q s"
  by (simp add: sublist_Cons_right)

lemma not_sublist_dropWhile: "\<not> sublist q (c # s) \<Longrightarrow> \<not> sublist q (dropWhile P s)"
  by (meson not_sublist_ConsD not_sublist_trans sublist_dropWhile)

subsection \<open>replace_crlf\<close>

lemma replace_crlf_fix: "\<not> sublist [CR, LF] s \<Longrightarrow> replace_crlf s = s"
  by (induction s rule: replace_crlf.induct) (auto simp: sublist_Cons_right)

lemma replace_crlf_head_LF:
  "prefix [LF] (replace_crlf s) \<Longrightarrow> prefix [LF] s \<or> prefix [CR, LF] s"
  by (induction s rule: replace_crlf.induct) (auto split: if_splits)

lemma replace_crlf_no_crlf:
  "\<not> sublist [CR, CR, LF] s \<Longrightarrow> \<not> sublist [CR, LF] (replace_crlf s)"
proof (induction s rule: replace_crlf.induct)
  case (1 c d cs)
  show ?case
  proof (cases "c = CR \<and> d = LF")
    case True
    with 1 show ?thesis by (auto simp: sublist_Cons_right)
  next
    case False
    have "\<not> sublist [CR, LF] (replace_crlf (d # cs))"
      using 1 False by (auto simp: sublist_Cons_right)
    moreover have "\<not> (c = CR \<and> prefix [LF] (replace_crlf (d # cs)))"
      using replace_crlf_head_LF [of "d # cs"] False "1.prems"
      by (auto simp: sublist_Cons_right)
    moreover have "replace_crlf (c # d # cs) = c # replace_crlf (d # cs)"
      using False by simp
    ultimately show ?thesis
      by (auto simp only: sublist_Cons_right [of _ c] prefix_Cons list.inject)
  qed
qed (auto simp: sublist_Cons_right)

lemma every_cr_before_lf_tl: "every_cr_before_lf (c # cs) \<Longrightarrow> every_cr_before_lf cs"
  by (cases cs) auto

lemma replace_crlf_no_cr:
  "every_cr_before_lf s \<Longrightarrow> CR \<notin> set (replace_crlf s)"
  by (induction s rule: replace_crlf.induct) (auto split: if_splits dest: every_cr_before_lf_tl)

subsection \<open>collapse_blanks\<close>

lemma is_blank_SP: "is_blank SP" and is_blank_TAB: "is_blank TAB"
  and not_blank_LF: "\<not> is_blank LF" and not_blank_CR: "\<not> is_blank CR"
  by (simp_all add: is_blank_def)

lemma collapse_blanks_prefix:
  "list_all (\<lambda>c. \<not> is_blank c) q \<Longrightarrow> prefix q (collapse_blanks s) \<Longrightarrow> prefix q s"
proof (induction s arbitrary: q rule: collapse_blanks.induct)
  case 1 then show ?case by simp
next
  case (2 c cs)
  show ?case
  proof (cases q)
    case Nil then show ?thesis by simp
  next
    case (Cons a q')
    show ?thesis
    proof (cases "is_blank c")
      case True
      with "2.prems" Cons is_blank_SP show ?thesis by auto
    next
      case False
      with "2.prems" Cons have "a = c" "prefix q' (collapse_blanks cs)" "list_all (\<lambda>c. \<not> is_blank c) q'"
        by auto
      with "2.IH"(2) [OF False] Cons show ?thesis by simp
    qed
  qed
qed

lemma collapse_blanks_dropWhile_head:
  "\<not> prefix [SP] (collapse_blanks (dropWhile is_blank cs))"
proof
  assume a: "prefix [SP] (collapse_blanks (dropWhile is_blank cs))"
  then obtain d r where d: "dropWhile is_blank cs = d # r"
    by (cases "dropWhile is_blank cs") auto
  then have nb: "\<not> is_blank d" by (simp add: dropWhile_eq_Cons_conv)
  with a d have "d = SP" by simp
  with nb is_blank_SP show False by simp
qed

lemma collapse_blanks_no_tab: "TAB \<notin> set (collapse_blanks s)"
proof (induction s rule: collapse_blanks.induct)
  case 1 then show ?case by simp
next
  case (2 c cs)
  then show ?case using is_blank_TAB by (cases "is_blank c") auto
qed

lemma collapse_blanks_no_spsp: "\<not> sublist [SP, SP] (collapse_blanks s)"
proof (induction s rule: collapse_blanks.induct)
  case 1 then show ?case by simp
next
  case (2 c cs)
  show ?case
  proof (cases "is_blank c")
    case True
    with 2 collapse_blanks_dropWhile_head [of cs] show ?thesis
      by (simp add: sublist_Cons_right)
  next
    case False
    then have "c \<noteq> SP" using is_blank_SP by auto
    with 2 False show ?thesis by (simp add: sublist_Cons_right)
  qed
qed

lemma collapse_blanks_keeps:
  assumes "list_all (\<lambda>c. \<not> is_blank c) q" "q \<noteq> []" "\<not> sublist q s"
  shows "\<not> sublist q (collapse_blanks s)"
  using assms(3)
proof (induction s rule: collapse_blanks.induct)
  case 1 with assms(2) show ?case by simp
next
  case (2 c cs)
  obtain a q' where q: "q = a # q'" using assms(2) by (cases q) auto
  show ?case
  proof (cases "is_blank c")
    case True
    have "\<not> sublist q (dropWhile is_blank cs)" using "2.prems" by (rule not_sublist_dropWhile)
    then have "\<not> sublist q (collapse_blanks (dropWhile is_blank cs))"
      using "2.IH"(1) [OF True] by simp
    moreover have "a \<noteq> SP" using assms(1) q is_blank_SP by auto
    moreover have "collapse_blanks (c # cs) = SP # collapse_blanks (dropWhile is_blank cs)"
      using True by simp
    ultimately show ?thesis
      by (simp only: sublist_Cons_right [of _ SP] q prefix_Cons list.inject) blast
  next
    case False
    have "\<not> sublist q cs" using "2.prems" by (rule not_sublist_ConsD)
    then have "\<not> sublist q (collapse_blanks cs)" using "2.IH"(2) [OF False] by simp
    moreover have "\<not> prefix q (c # collapse_blanks cs)"
    proof
      assume "prefix q (c # collapse_blanks cs)"
      then have "prefix q (collapse_blanks (c # cs))" using False by simp
      with assms(1) have "prefix q (c # cs)" by (rule collapse_blanks_prefix)
      with "2.prems" show False by (simp only: sublist_Cons_right [of _ c]) blast
    qed
    moreover have "collapse_blanks (c # cs) = c # collapse_blanks cs"
      using False by simp
    ultimately show ?thesis
      by (simp only: sublist_Cons_right [of _ c]) blast
  qed
qed

lemma collapse_blanks_fix:
  "TAB \<notin> set s \<Longrightarrow> \<not> sublist [SP, SP] s \<Longrightarrow> collapse_blanks s = s"
proof (induction s rule: collapse_blanks.induct)
  case 1 then show ?case by simp
next
  case (2 c cs)
  have tl: "TAB \<notin> set cs" "\<not> sublist [SP, SP] cs"
    using "2.prems" by (simp_all add: sublist_Cons_right)
  show ?case
  proof (cases "is_blank c")
    case True
    with "2.prems"(1) have c: "c = SP" by (auto simp: is_blank_def)
    have "cs = [] \<or> \<not> is_blank (hd cs)"
    proof (cases cs)
      case Nil then show ?thesis by simp
    next
      case (Cons d r)
      with "2.prems" c have "d \<noteq> SP" "d \<noteq> TAB" by (auto simp: sublist_Cons_right)
      with Cons show ?thesis by (simp add: is_blank_def)
    qed
    then have "dropWhile is_blank cs = cs" by (rule dropWhile_fix)
    with "2.IH"(1) [OF True] tl True c show ?thesis by simp
  next
    case False
    with "2.IH"(2) [OF False] tl show ?thesis by simp
  qed
qed

subsection \<open>collapse_newlines\<close>

lemma dropWhile_not_prefix: "P a \<Longrightarrow> \<not> prefix (a # q) (dropWhile P s)"
  by (induction s) auto

lemma LF_run: "is_LF c \<Longrightarrow> c # takeWhile is_LF cs = replicate (Suc (length (takeWhile is_LF cs))) LF"
proof -
  assume "is_LF c"
  then have c: "c = LF" by (simp add: is_LF_def)
  have "\<forall>y\<in>set (takeWhile is_LF cs). y = LF"
    by (auto dest: set_takeWhileD simp: is_LF_def)
  then have "replicate (length (takeWhile is_LF cs)) LF = takeWhile is_LF cs"
    by (rule replicate_length_same)
  with c show ?thesis by simp
qed

text \<open>What a run of line feeds is replaced by: one or two line feeds.\<close>

lemma collapse_newlines_LF:
  assumes "is_LF c"
  shows "\<exists>m. (m = 1 \<or> m = 2) \<and>
     collapse_newlines (c # cs) = replicate m LF @ collapse_newlines (dropWhile is_LF cs)"
proof (cases "3 \<le> length (c # takeWhile is_LF cs)")
  case True
  with assms show ?thesis by (intro exI [of _ 2]) (simp add: numeral_2_eq_2)
next
  case False
  define n where "n = length (takeWhile is_LF cs)"
  have "n < 2" using False by (simp add: n_def)
  then have "Suc n = 1 \<or> Suc n = 2" by arith
  moreover have "collapse_newlines (c # cs) = replicate (Suc n) LF @ collapse_newlines (dropWhile is_LF cs)"
    using assms False LF_run [OF assms, of cs] unfolding n_def by simp
  ultimately show ?thesis by blast
qed

lemma collapse_newlines_head_LF: "prefix [LF] (collapse_newlines s) \<Longrightarrow> prefix [LF] s"
  by (cases s) (auto simp: is_LF_def split: if_splits)

lemma collapse_newlines_dropWhile_head:
  "\<not> prefix [LF] (collapse_newlines (dropWhile is_LF cs))"
  using collapse_newlines_head_LF [of "dropWhile is_LF cs"]
    dropWhile_not_prefix [of is_LF LF "[]" cs]
  by (auto simp: is_LF_def)

lemma sublist_replicate_append:
  "a \<noteq> b \<Longrightarrow> sublist (a # q) (replicate m b @ X) \<longleftrightarrow> sublist (a # q) X"
  by (induction m) (simp_all add: sublist_Cons_right)

lemma collapse_newlines_no_lf3: "\<not> sublist [LF, LF, LF] (collapse_newlines s)"
proof (induction s rule: collapse_newlines.induct)
  case 1 then show ?case by simp
next
  case (2 c cs)
  show ?case
  proof (cases "is_LF c")
    case True
    from collapse_newlines_LF [OF True, of cs] obtain m where
      m: "m = 1 \<or> m = 2" "collapse_newlines (c # cs) = replicate m LF @ collapse_newlines (dropWhile is_LF cs)"
      by blast
    have "\<not> sublist [LF, LF, LF] (collapse_newlines (dropWhile is_LF cs))"
      using "2.IH"(1) [OF True] .
    moreover have h1: "\<not> prefix [LF] (collapse_newlines (dropWhile is_LF cs))"
      by (rule collapse_newlines_dropWhile_head)
    moreover from h1 have "\<not> prefix [LF, LF] (collapse_newlines (dropWhile is_LF cs))"
      by (cases "collapse_newlines (dropWhile is_LF cs)") auto
    ultimately show ?thesis using m
      by (auto simp: sublist_Cons_right numeral_2_eq_2 simp del: collapse_newlines.simps)
  next
    case False
    then have "c \<noteq> LF" by (simp add: is_LF_def)
    with "2.IH"(2) [OF False] False show ?thesis by (simp add: sublist_Cons_right)
  qed
qed

lemma collapse_newlines_keeps_no_crlf:
  "\<not> sublist [CR, LF] s \<Longrightarrow> \<not> sublist [CR, LF] (collapse_newlines s)"
proof (induction s rule: collapse_newlines.induct)
  case 1 then show ?case by simp
next
  case (2 c cs)
  show ?case
  proof (cases "is_LF c")
    case True
    from collapse_newlines_LF [OF True, of cs] obtain m where
      m: "collapse_newlines (c # cs) = replicate m LF @ collapse_newlines (dropWhile is_LF cs)"
      by blast
    have "\<not> sublist [CR, LF] (dropWhile is_LF cs)" using "2.prems" by (rule not_sublist_dropWhile)
    then have "\<not> sublist [CR, LF] (collapse_newlines (dropWhile is_LF cs))"
      using "2.IH"(1) [OF True] by simp
    then show ?thesis unfolding m by (simp add: sublist_replicate_append)
  next
    case False
    have "\<not> sublist [CR, LF] cs" using "2.prems" by (rule not_sublist_ConsD)
    then have "\<not> sublist [CR, LF] (collapse_newlines cs)" using "2.IH"(2) [OF False] by simp
    moreover have "\<not> (c = CR \<and> prefix [LF] (collapse_newlines cs))"
      using collapse_newlines_head_LF [of cs] "2.prems" by (auto simp: sublist_Cons_right)
    moreover have "collapse_newlines (c # cs) = c # collapse_newlines cs" using False by simp
    ultimately show ?thesis
      by (auto simp only: sublist_Cons_right [of _ c] prefix_Cons list.inject)
  qed
qed

lemma collapse_newlines_fix:
  "\<not> sublist [LF, LF, LF] s \<Longrightarrow> collapse_newlines s = s"
proof (induction s rule: collapse_newlines.induct)
  case 1 then show ?case by simp
next
  case (2 c cs)
  show ?case
  proof (cases "is_LF c")
    case True
    have run: "c # takeWhile is_LF cs = replicate (Suc (length (takeWhile is_LF cs))) LF"
      using True by (rule LF_run)
    have split: "c # cs = (c # takeWhile is_LF cs) @ dropWhile is_LF cs" by simp
    have short: "\<not> 3 \<le> length (c # takeWhile is_LF cs)"
    proof
      assume "3 \<le> length (c # takeWhile is_LF cs)"
      then obtain k where "length (takeWhile is_LF cs) = Suc (Suc k)"
        by (cases "length (takeWhile is_LF cs)"; cases "length (takeWhile is_LF cs) - 1") auto
      with run have "c # takeWhile is_LF cs = [LF, LF, LF] @ replicate k LF" by simp
      with split have "c # cs = [LF, LF, LF] @ (replicate k LF @ dropWhile is_LF cs)"
        by (metis append.assoc)
      then have "sublist [LF, LF, LF] (c # cs)" by (metis sublist_append_rightI)
      with "2.prems" show False by simp
    qed
    have "\<not> sublist [LF, LF, LF] (dropWhile is_LF cs)"
      using "2.prems" by (rule not_sublist_dropWhile)
    then have "collapse_newlines (dropWhile is_LF cs) = dropWhile is_LF cs"
      using "2.IH"(1) [OF True] by simp
    with True short show ?thesis by simp
  next
    case False
    have "\<not> sublist [LF, LF, LF] cs" using "2.prems" by (rule not_sublist_ConsD)
    with "2.IH"(2) [OF False] False show ?thesis by simp
  qed
qed

lemma set_collapse_newlines: "set (collapse_newlines s) \<subseteq> set s"
proof (induction s rule: collapse_newlines.induct)
  case 1 then show ?case by simp
next
  case (2 c cs)
  show ?case
  proof (cases "is_LF c")
    case True
    then have c: "c = LF" by (simp add: is_LF_def)
    have "set (takeWhile is_LF cs) \<subseteq> set cs" by (auto dest: set_takeWhileD)
    moreover have "set (dropWhile is_LF cs) \<subseteq> set cs" by (auto dest: set_dropWhileD)
    ultimately show ?thesis using "2.IH"(1) [OF True] True c by auto
  next
    case False
    with "2.IH"(2) [OF False] show ?thesis by auto
  qed
qed

lemma set_collapse_blanks: "set (collapse_blanks s) \<subseteq> insert SP (set s)"
proof (induction s rule: collapse_blanks.induct)
  case 1 then show ?case by simp
next
  case (2 c cs)
  show ?case
  proof (cases "is_blank c")
    case True
    have "set (dropWhile is_blank cs) \<subseteq> set cs" by (auto dest: set_dropWhileD)
    with "2.IH"(1) [OF True] True show ?thesis by auto
  next
    case False
    with "2.IH"(2) [OF False] show ?thesis by auto
  qed
qed

section \<open>The normalization as a whole\<close>

text \<open>
  What the chain of the four steps does to white space and to CR, when its result is a
  fixed point, and why the paragraphs built from trimmed lines are trimmed.
\<close>

lemma set_replace_crlf: "set (replace_crlf s) \<subseteq> set s"
  by (induction s rule: replace_crlf.induct) auto

lemma normalize_all_space:
  assumes "list_all is_space text"
  shows "normalizeText text = []"
proof -
  have sp: "is_space SP" by (simp add: is_space_def)
  have "set (collapse_blanks (collapse_newlines (replace_crlf text))) \<subseteq> insert SP (set text)"
    using set_collapse_blanks [of "collapse_newlines (replace_crlf text)"]
      set_collapse_newlines [of "replace_crlf text"] set_replace_crlf [of "text"]
    by blast
  with assms sp have "list_all is_space (collapse_blanks (collapse_newlines (replace_crlf text)))"
    by (auto simp: list_all_iff)
  then show ?thesis unfolding normalizeText_def by (rule trim_all_space)
qed

lemma detectParagraphs_of_empty_normal_form:
  "normalizeText text = [] \<Longrightarrow> detectParagraphs text = Some []"
  by (simp add: detectParagraphs_def group_lines_def loop.simps step_def at_def trim_Nil)

lemma normalize_no_cr:
  assumes "every_cr_before_lf text"
  shows "CR \<notin> set (normalizeText text)"
proof -
  have "CR \<notin> set (replace_crlf text)" using assms by (rule replace_crlf_no_cr)
  then have "CR \<notin> set (collapse_newlines (replace_crlf text))"
    using set_collapse_newlines [of "replace_crlf text"] by blast
  then have "CR \<notin> set (collapse_blanks (collapse_newlines (replace_crlf text)))"
    using set_collapse_blanks [of "collapse_newlines (replace_crlf text)"] by auto
  then show ?thesis
    unfolding normalizeText_def
    using set_trim [of "collapse_blanks (collapse_newlines (replace_crlf text))"] by blast
qed

lemma normalize_idem:
  assumes "\<not> sublist [CR, CR, LF] text"
  shows "normalizeText (normalizeText text) = normalizeText text"
proof -
  let ?a = "replace_crlf text"
  let ?b = "collapse_newlines ?a"
  let ?c = "collapse_blanks ?b"
  let ?t = "trim ?c"
  have nb: "list_all (\<lambda>c. \<not> is_blank c) [CR, LF]" "list_all (\<lambda>c. \<not> is_blank c) [LF, LF, LF]"
    by (simp_all add: is_blank_def)
  have a1: "\<not> sublist [CR, LF] ?a" using assms by (rule replace_crlf_no_crlf)
  have b1: "\<not> sublist [CR, LF] ?b" using a1 by (rule collapse_newlines_keeps_no_crlf)
  have b2: "\<not> sublist [LF, LF, LF] ?b" by (rule collapse_newlines_no_lf3)
  have c1: "\<not> sublist [CR, LF] ?c" using nb(1) _ b1 by (rule collapse_blanks_keeps) simp
  have c2: "\<not> sublist [LF, LF, LF] ?c" using nb(2) _ b2 by (rule collapse_blanks_keeps) simp
  have c3: "TAB \<notin> set ?c" by (rule collapse_blanks_no_tab)
  have c4: "\<not> sublist [SP, SP] ?c" by (rule collapse_blanks_no_spsp)
  have sub: "sublist ?t ?c" by (rule sublist_trim)
  have t1: "\<not> sublist [CR, LF] ?t" using c1 sub by (rule not_sublist_trans)
  have t2: "\<not> sublist [LF, LF, LF] ?t" using c2 sub by (rule not_sublist_trans)
  have t3: "TAB \<notin> set ?t" using c3 set_trim [of ?c] by blast
  have t4: "\<not> sublist [SP, SP] ?t" using c4 sub by (rule not_sublist_trans)
  have "replace_crlf ?t = ?t" using t1 by (rule replace_crlf_fix)
  moreover have "collapse_newlines ?t = ?t" using t2 by (rule collapse_newlines_fix)
  moreover have "collapse_blanks ?t = ?t" using t3 t4 by (rule collapse_blanks_fix)
  moreover have "trim ?t = ?t" by (rule trim_idem)
  ultimately show ?thesis by (simp add: normalizeText_def)
qed

subsection \<open>Joined blocks are trimmed\<close>

lemma join_sp_ends:
  "b \<noteq> [] \<Longrightarrow> [] \<notin> set b \<Longrightarrow>
     join_sp b \<noteq> [] \<and> hd (join_sp b) = hd (hd b) \<and> last (join_sp b) = last (last b)"
  by (induction b rule: join_sp.induct) auto

lemma trim_join_sp:
  assumes "set b \<subseteq> set (nonblank_lines ls)"
  shows "trim (join_sp b) = join_sp b"
proof (cases "b = []")
  case True then show ?thesis by (simp add: trim_Nil)
next
  case False
  have each: "l \<noteq> [] \<and> \<not> is_space (hd l) \<and> \<not> is_space (last l)" if "l \<in> set b" for l
  proof -
    from that assms obtain r where "l = trim r" "trim r \<noteq> []"
      by (auto simp: nonblank_lines_def)
    then show ?thesis using trim_ends [of r] by simp
  qed
  then have nn: "[] \<notin> set b" by blast
  have "hd b \<in> set b" "last b \<in> set b" using False by simp_all
  with each join_sp_ends [OF False nn] show ?thesis by (intro trim_fixI) auto
qed

lemma map_trim_join_sp:
  assumes "concat blocks = nonblank_lines ls"
  shows "map trim (map join_sp blocks) = map join_sp blocks"
proof -
  have "trim (join_sp b) = join_sp b" if "b \<in> set blocks" for b
  proof (rule trim_join_sp)
    show "set b \<subseteq> set (nonblank_lines ls)" using that assms [symmetric] by auto
  qed
  then show ?thesis by simp
qed

section \<open>The post-filter, characterised\<close>

text \<open>
  The two patterns of the callback in terms of the paragraph: \<^verbatim>\<open>/(.)\1{10,}/\<close> finds
  eleven equal code units in a row that are not line terminators, and the class
  \<^verbatim>\<open>[\d\s\W]\<close> is the complement of the ASCII letters and the underscore.
\<close>

lemma prefix_replicate_takeWhile:
  "prefix (replicate n y) ys \<longleftrightarrow> n \<le> length (takeWhile (\<lambda>d. d = y) ys)"
  by (induction ys arbitrary: n) (case_tac n; auto)+

lemma has_repeated_run_iff:
  "has_repeated_run p \<longleftrightarrow> (\<exists>c. \<not> is_line_terminator c \<and> sublist (replicate 11 c) p)"
proof (induction p)
  case Nil then show ?case by simp
next
  case (Cons a p)
  have "prefix (replicate 11 c) (a # p) \<longleftrightarrow> c = a \<and> 10 \<le> length (takeWhile (\<lambda>d. d = a) p)" for c
    using prefix_replicate_takeWhile [of 10 a p]
    by (auto simp: numeral_eq_Suc)
  with Cons show ?case by (auto simp: sublist_Cons_right)
qed

lemma noise_class_iff:
  "(is_digit c \<or> is_space c \<or> \<not> is_word c) \<longleftrightarrow> \<not> is_letter_or_underscore c"
  by (auto simp: class_defs)

lemma keep_paragraph_iff:
  "keep_paragraph p \<longleftrightarrow>
     10 \<le> length p \<and> (\<exists>c\<in>set p. is_letter_or_underscore c) \<and> \<not> has_repeated_run p"
proof -
  have "(\<not> list_all (\<lambda>c. is_digit c \<or> is_space c \<or> \<not> is_word c) p) \<longleftrightarrow>
      (\<exists>c\<in>set p. is_letter_or_underscore c)"
    by (simp add: list_all_iff noise_class_iff)
  moreover have "10 \<le> length p \<Longrightarrow> p \<noteq> []" by auto
  ultimately show ?thesis
    by (auto simp: keep_paragraph_def noise_only_def)
qed

lemma replicate_11: "replicate 11 x = [x, x, x, x, x, x, x, x, x, x, x]"
  by (simp add: numeral_eq_Suc)

section \<open>The properties of the specification\<close>

text \<open>
  Throughout, \<open>detectParagraphs text = Some ps\<close> says that the function returns the array
  \<open>ps\<close>, and \<open>None\<close> that it throws.
\<close>

subsection \<open>C1: continuation joining\<close>

text \<open>
  C1 (continuation joining), as the specification states it, fails: for the two-line
  input \<^verbatim>\<open>This is a long line that continues\<close>, line feed,
  \<^verbatim>\<open>onto the next line without punctuation.\<close> the result is not the single
  paragraph made of the two lines joined by one space.
\<close>

theorem C1_joined_counterexample:
  "detectParagraphs (js ''This is a long line that continues'' @ [LF] @
       js ''onto the next line without punctuation.'')
     \<noteq> Some [js ''This is a long line that continues'' @ [SP] @
       js ''onto the next line without punctuation.'']"
  by (simp add: class_defs seg_defs)

text \<open>
  C1, amended. For that two-line input \<^verbatim>\<open>detectParagraphs\<close> returns exactly two
  paragraphs, the two lines unjoined. The second line is the last one (a line is a
  continuation only when a next line exists) and it ends in a full stop, so
  \<^verbatim>\<open>isContinuation\<close> is false for it: the first line is pushed and the second starts
  a paragraph of its own.
\<close>

theorem C1_two_lines_two_paragraphs:
  "detectParagraphs (js ''This is a long line that continues'' @ [LF] @
       js ''onto the next line without punctuation.'')
     = Some [js ''This is a long line that continues'',
             js ''onto the next line without punctuation.'']"
  by (simp add: class_defs seg_defs)

subsection \<open>C2: blank-line boundary\<close>

text \<open>
  C2 (blank-line boundary), as the specification states it, fails: for the input
  \<^verbatim>\<open>A.\<close>, blank line, \<^verbatim>\<open>B.\<close> the function does not return the two paragraphs
  \<^verbatim>\<open>A.\<close> and \<^verbatim>\<open>B.\<close>.
\<close>

theorem C2_two_paragraphs_counterexample:
  "detectParagraphs (js ''A.'' @ [LF, LF] @ js ''B.'') \<noteq> Some [js ''A.'', js ''B.'']"
  by (simp add: class_defs seg_defs)

text \<open>
  C2, amended. For that input the line grouping, before the post-filter, yields exactly
  the two paragraphs \<^verbatim>\<open>A.\<close> and \<^verbatim>\<open>B.\<close>, split at the blank line; the post-filter
  then drops both, each being shorter than 10 code units, and \<^verbatim>\<open>detectParagraphs\<close>
  returns the empty list.
\<close>

theorem C2_blank_line_boundary_before_filter:
  "group_lines (split_lines (normalizeText (js ''A.'' @ [LF, LF] @ js ''B.'')))
     = Some [js ''A.'', js ''B.''] \<and>
   detectParagraphs (js ''A.'' @ [LF, LF] @ js ''B.'') = Some []"
  by (simp add: class_defs seg_defs)

subsection \<open>C3: totality\<close>

text \<open>
  C3 (failure contract). For every string \<^verbatim>\<open>detectParagraphs\<close> returns a paragraph
  list and throws nothing: none of the array reads of the loop is out of range. For
  the empty string, and for every string made of white space only (the characters that
  \<^verbatim>\<open>trim\<close> strips), the list returned is empty.
\<close>

theorem C3_total_and_empty_on_blank_input:
  "(\<exists>ps. detectParagraphs text = Some ps) \<and>
   detectParagraphs [] = Some [] \<and>
   (list_all is_space text \<longrightarrow> detectParagraphs text = Some [])"
proof -
  have "detectParagraphs [] = Some []"
    by (rule detectParagraphs_of_empty_normal_form) (simp add: normalize_all_space)
  moreover have "detectParagraphs text = Some []" if "list_all is_space text"
    using that by (intro detectParagraphs_of_empty_normal_form normalize_all_space)
  ultimately show ?thesis using detectParagraphs_total [of "text"] by blast
qed

text \<open>
  The theorem of C3 at a string of spaces, a tab, line feeds, a CRLF, an ideographic
  space and a no-break space.
\<close>

theorem C3_blank_input_witness:
  "list_all is_space [SP, TAB, LF, CR, LF, 0x3000, 0xA0, LF] \<and>
   detectParagraphs [SP, TAB, LF, CR, LF, 0x3000, 0xA0, LF] = Some []"
  using C3_total_and_empty_on_blank_input [of "[SP, TAB, LF, CR, LF, 0x3000, 0xA0, LF]"]
  by (simp add: is_space_def is_line_terminator_def)

subsection \<open>C4: order preservation\<close>

text \<open>
  C4 (order preservation). The lines that are not blank, trimmed and in the order of the
  text, are cut into consecutive non-empty blocks; the paragraphs before the post-filter
  are these blocks, in order, each block joined by single spaces (trimming them changes
  nothing). The post-filter only keeps or drops whole paragraphs: the result of
  \<^verbatim>\<open>detectParagraphs\<close> is the list of the trimmed paragraphs that pass the filter,
  an order-preserving subsequence of the trimmed pre-filter list.
\<close>

theorem C4_order_preserved:
  "\<exists>blocks pre.
     [] \<notin> set blocks \<and>
     concat blocks = nonblank_lines (split_lines (normalizeText text)) \<and>
     pre = map join_sp blocks \<and>
     group_lines (split_lines (normalizeText text)) = Some pre \<and>
     map trim pre = pre \<and>
     detectParagraphs text = Some (filter keep_paragraph (map trim pre)) \<and>
     subseq (filter keep_paragraph (map trim pre)) (map trim pre)"
proof -
  from group_lines_blocks [of "split_lines (normalizeText text)"] obtain blocks where
    b: "group_lines (split_lines (normalizeText text)) = Some (map join_sp blocks)"
      "[] \<notin> set blocks" "concat blocks = nonblank_lines (split_lines (normalizeText text))"
    by blast
  have t: "map trim (map join_sp blocks) = map join_sp blocks"
    using b(3) by (rule map_trim_join_sp)
  have d: "detectParagraphs text =
      Some (filter keep_paragraph (map trim (map join_sp blocks)))"
    by (simp add: detectParagraphs_def b(1))
  show ?thesis
    using b t d by (intro exI [of _ blocks] exI [of _ "map join_sp blocks"]) simp
qed

text \<open>The theorem of C4 at the three-line input of C8: three blocks of one line each.\<close>

theorem C4_order_witness:
  "\<exists>blocks. [] \<notin> set blocks \<and>
     concat blocks = [js ''Intro text.'', js ''1. First item'', js ''2. Second item''] \<and>
     map join_sp blocks = [js ''Intro text.'', js ''1. First item'', js ''2. Second item'']"
proof -
  let ?x = "js ''Intro text.'' @ [LF] @ js ''1. First item'' @ [LF] @ js ''2. Second item''"
  have 1: "nonblank_lines (split_lines (normalizeText ?x)) =
      [js ''Intro text.'', js ''1. First item'', js ''2. Second item'']"
    by (simp add: nonblank_lines_def class_defs seg_defs)
  have 2: "group_lines (split_lines (normalizeText ?x)) =
      Some [js ''Intro text.'', js ''1. First item'', js ''2. Second item'']"
    by (simp add: class_defs seg_defs)
  from C4_order_preserved [of ?x] show ?thesis unfolding 1 2 by auto
qed

subsection \<open>C5: the post-filter\<close>

text \<open>
  C5 (noise filtering), as the specification states it, fails on runs of a line
  terminator: the pattern character \<^verbatim>\<open>.\<close> does not match CR, so a paragraph of
  seventeen code units with letters and a run of eleven CR is kept, and it is what
  \<^verbatim>\<open>detectParagraphs\<close> returns for that text.
\<close>

theorem C5_run_of_line_terminators_counterexample:
  "keep_paragraph (js ''abc'' @ replicate 11 CR @ js ''def'') \<and>
   sublist (replicate 11 CR) (js ''abc'' @ replicate 11 CR @ js ''def'') \<and>
   detectParagraphs (js ''abc'' @ replicate 11 CR @ js ''def'')
     = Some [js ''abc'' @ replicate 11 CR @ js ''def'']"
proof -
  have "sublist (replicate 11 CR) (js ''abc'' @ replicate 11 CR @ js ''def'')"
    by (rule sublist_appendI)
  moreover have "keep_paragraph (js ''abc'' @ replicate 11 CR @ js ''def'')"
    by (simp add: class_defs seg_defs replicate_11)
  moreover have "detectParagraphs (js ''abc'' @ replicate 11 CR @ js ''def'')
     = Some [js ''abc'' @ replicate 11 CR @ js ''def'']"
    by (simp add: class_defs seg_defs replicate_11)
  ultimately show ?thesis by blast
qed

text \<open>
  C5, amended. The post-filter drops a paragraph if and only if it has fewer than 10 code
  units, or consists entirely of digits, white space and non-word characters, or contains
  a code unit other than a line terminator (LF, CR, U+2028, U+2029) repeated 11 or more
  times in a row. In particular \<^verbatim>\<open>42\<close> and sixteen dashes are dropped, and
  \<^verbatim>\<open>This is a valid paragraph with enough length.\<close> is kept.
\<close>

theorem C5_post_filter_drops:
  "(\<not> keep_paragraph p \<longleftrightarrow>
      length p < 10 \<or>
      (\<forall>c\<in>set p. is_digit c \<or> is_space c \<or> \<not> is_word c) \<or>
      (\<exists>c. \<not> is_line_terminator c \<and> sublist (replicate 11 c) p)) \<and>
   \<not> keep_paragraph (js ''42'') \<and>
   \<not> keep_paragraph (js ''----------------'') \<and>
   keep_paragraph (js ''This is a valid paragraph with enough length.'')"
proof -
  have "(\<not> keep_paragraph p \<longleftrightarrow>
      length p < 10 \<or>
      (\<forall>c\<in>set p. is_digit c \<or> is_space c \<or> \<not> is_word c) \<or>
      (\<exists>c. \<not> is_line_terminator c \<and> sublist (replicate 11 c) p))"
    unfolding keep_paragraph_iff has_repeated_run_iff noise_class_iff by auto
  moreover have "\<not> keep_paragraph (js ''42'')"
    by (simp add: keep_paragraph_def js_def)
  moreover have "\<not> keep_paragraph (js ''----------------'')"
    by (simp add: class_defs seg_defs)
  moreover have "keep_paragraph (js ''This is a valid paragraph with enough length.'')"
    by (simp add: class_defs seg_defs)
  ultimately show ?thesis by blast
qed

text \<open>The theorem of C5 at the kept paragraph: none of the three conditions holds.\<close>

theorem C5_kept_paragraph_witness:
  "keep_paragraph (js ''This is a valid paragraph with enough length.'') \<and>
   \<not> length (js ''This is a valid paragraph with enough length.'') < 10 \<and>
   \<not> list_all (\<lambda>c. is_digit c \<or> is_space c \<or> \<not> is_word c)
       (js ''This is a valid paragraph with enough length.'') \<and>
   \<not> (\<exists>c. \<not> is_line_terminator c \<and>
       sublist (replicate 11 c) (js ''This is a valid paragraph with enough length.''))"
  using C5_post_filter_drops [of "js ''This is a valid paragraph with enough length.''"]
  by (auto simp: list_all_iff)

subsection \<open>C6: line endings\<close>

text \<open>
  C6 (canonical line break), as the specification states it, fails: a CR that is not
  followed by LF is not converted, and the normalized text of \<^verbatim>\<open>a\<close>, CR, \<^verbatim>\<open>b\<close>
  still contains the CR.
\<close>

theorem C6_lone_cr_counterexample:
  "CR \<in> set (normalizeText (js ''a'' @ [CR] @ js ''b''))"
  by (simp add: class_defs seg_defs)

text \<open>
  C6, amended. The normalization converts CRLF to LF and leaves LF as it is; a lone CR
  is not converted. For every string in which every CR is immediately followed by LF,
  the normalized text contains no CR.
\<close>

theorem C6_no_cr_without_lone_cr:
  "every_cr_before_lf text \<Longrightarrow> CR \<notin> set (normalizeText text)"
  by (rule normalize_no_cr)

text \<open>The theorem of C6 at a text with two CRLF and one LF.\<close>

theorem C6_crlf_witness:
  "every_cr_before_lf (js ''a'' @ [CR, LF] @ js ''b'' @ [LF]  @ js ''c'' @ [CR, LF]) \<and>
   CR \<notin> set (normalizeText (js ''a'' @ [CR, LF] @ js ''b'' @ [LF]  @ js ''c'' @ [CR, LF]))"
proof -
  have h: "every_cr_before_lf (js ''a'' @ [CR, LF] @ js ''b'' @ [LF]  @ js ''c'' @ [CR, LF])"
    by (simp add: js_def)
  from h C6_no_cr_without_lone_cr [OF h] show ?thesis by blast
qed

subsection \<open>C7: idempotence of the normalization\<close>

text \<open>
  C7 (idempotence), as the specification states it, fails: the first replacement is not
  applied to its own result, so CR CR LF becomes CR LF, which a second normalization
  turns into LF.
\<close>

theorem C7_cr_crlf_counterexample:
  "normalizeText (normalizeText (js ''a'' @ [CR, CR, LF] @ js ''b''))
     \<noteq> normalizeText (js ''a'' @ [CR, CR, LF] @ js ''b'')"
  by (simp add: class_defs seg_defs)

text \<open>
  C7, amended. For every string that does not contain the sequence CR CR LF, normalizing
  the normalized text returns it unchanged.
\<close>

theorem C7_normalize_idempotent:
  "\<not> sublist [CR, CR, LF] text \<Longrightarrow> normalizeText (normalizeText text) = normalizeText text"
  by (rule normalize_idem)

text \<open>
  The theorem of C7 at a text with leading and trailing blanks, a run of blanks, a CRLF
  and a run of line feeds; its normal form is \<^verbatim>\<open>a b\<close>, two line feeds, \<^verbatim>\<open>c\<close>.
\<close>

theorem C7_idempotent_witness:
  "\<not> sublist [CR, CR, LF] ([SP] @ js ''a'' @ [SP, TAB, SP] @ js ''b'' @ [CR, LF, LF, LF, LF] @ js ''c'' @ [SP, LF]) \<and>
   normalizeText (normalizeText ([SP] @ js ''a'' @ [SP, TAB, SP] @ js ''b'' @ [CR, LF, LF, LF, LF] @ js ''c'' @ [SP, LF]))
     = normalizeText ([SP] @ js ''a'' @ [SP, TAB, SP] @ js ''b'' @ [CR, LF, LF, LF, LF] @ js ''c'' @ [SP, LF]) \<and>
   normalizeText ([SP] @ js ''a'' @ [SP, TAB, SP] @ js ''b'' @ [CR, LF, LF, LF, LF] @ js ''c'' @ [SP, LF])
     = js ''a b'' @ [LF, LF] @ js ''c''"
proof -
  let ?w = "[SP] @ js ''a'' @ [SP, TAB, SP] @ js ''b'' @ [CR, LF, LF, LF, LF] @ js ''c'' @ [SP, LF]"
  have h: "\<not> sublist [CR, CR, LF] ?w"
    by (simp add: js_def sublist_Cons_right)
  have v: "normalizeText ?w = js ''a b'' @ [LF, LF] @ js ''c''"
    by (simp add: class_defs seg_defs)
  from h C7_normalize_idempotent [OF h] v show ?thesis by blast
qed

subsection \<open>C8: list-marker boundary\<close>

text \<open>
  C8 (list-marker boundary). The input of three lines \<^verbatim>\<open>Intro text.\<close>,
  \<^verbatim>\<open>1. First item\<close>, \<^verbatim>\<open>2. Second item\<close>, separated by line feeds, is returned as
  exactly three paragraphs, one per line: the first line ends in a full stop, so the
  second starts a new paragraph, and the third starts with a digit.
\<close>

theorem C8_list_marker_boundary:
  "detectParagraphs (js ''Intro text.'' @ [LF] @ js ''1. First item'' @ [LF] @ js ''2. Second item'')
     = Some [js ''Intro text.'', js ''1. First item'', js ''2. Second item'']"
  by (simp add: class_defs seg_defs)

subsection \<open>C9: shape of the output paragraphs\<close>

text \<open>
  C9. For every string, every paragraph that \<^verbatim>\<open>detectParagraphs\<close> returns is not
  empty, is equal to its own trim and has at least 10 code units.
\<close>

theorem C9_output_paragraphs_trimmed_and_long:
  "\<exists>ps. detectParagraphs text = Some ps \<and>
     (\<forall>p\<in>set ps. p \<noteq> [] \<and> trim p = p \<and> 10 \<le> length p)"
proof -
  from detectParagraphs_eq [of "text"] obtain pre where
    d: "detectParagraphs text = Some (filter keep_paragraph (map trim pre))" by blast
  have "p \<noteq> [] \<and> trim p = p \<and> 10 \<le> length p"
    if "p \<in> set (filter keep_paragraph (map trim pre))" for p
  proof -
    from that obtain q where "p = trim q" "keep_paragraph p" by auto
    then show ?thesis using trim_idem [of q] by (auto simp: keep_paragraph_iff)
  qed
  with d show ?thesis by blast
qed

text \<open>The theorem of C9 at the three-line input of C8.\<close>

theorem C9_witness:
  "detectParagraphs (js ''Intro text.'' @ [LF] @ js ''1. First item'' @ [LF] @ js ''2. Second item'')
     = Some [js ''Intro text.'', js ''1. First item'', js ''2. Second item''] \<and>
   list_all (\<lambda>p. p \<noteq> [] \<and> trim p = p \<and> 10 \<le> length p)
     [js ''Intro text.'', js ''1. First item'', js ''2. Second item'']"
proof -
  let ?x = "js ''Intro text.'' @ [LF] @ js ''1. First item'' @ [LF] @ js ''2. Second item''"
  have 1: "detectParagraphs ?x =
      Some [js ''Intro text.'', js ''1. First item'', js ''2. Second item'']"
    by (simp add: class_defs seg_defs)
  from C9_output_paragraphs_trimmed_and_long [of ?x] show ?thesis
    unfolding 1 by (simp add: list_all_iff)
qed

subsection \<open>C10: every output paragraph has an ASCII letter or underscore\<close>

text \<open>
  C10. For every string, every paragraph that \<^verbatim>\<open>detectParagraphs\<close> returns contains
  an ASCII letter or an underscore; so a paragraph whose code units are all in the
  classes of \<^verbatim>\<open>/^[\d\s\W]+$/\<close> (digits, white space, non-word characters, among them
  every CJK character and every punctuation mark) is never returned, however long.
\<close>

theorem C10_output_paragraphs_have_a_letter:
  "\<exists>ps. detectParagraphs text = Some ps \<and>
     (\<forall>p\<in>set ps. \<exists>c\<in>set p. is_letter_or_underscore c) \<and>
     (\<forall>p. list_all (\<lambda>c. is_digit c \<or> is_space c \<or> \<not> is_word c) p \<longrightarrow> p \<notin> set ps)"
proof -
  from detectParagraphs_eq [of "text"] obtain pre where
    d: "detectParagraphs text = Some (filter keep_paragraph (map trim pre))" by blast
  have 1: "\<exists>c\<in>set p. is_letter_or_underscore c"
    if "p \<in> set (filter keep_paragraph (map trim pre))" for p
    using that by (auto simp: keep_paragraph_iff)
  have 2: "p \<notin> set (filter keep_paragraph (map trim pre))"
    if "list_all (\<lambda>c. is_digit c \<or> is_space c \<or> \<not> is_word c) p" for p
  proof
    assume "p \<in> set (filter keep_paragraph (map trim pre))"
    from 1 [OF this] obtain c where "c \<in> set p" "is_letter_or_underscore c" by blast
    with that show False by (auto simp: list_all_iff noise_class_iff)
  qed
  from d 1 2 show ?thesis by blast
qed

text \<open>
  The theorem of C10 at a text of fifteen CJK characters, an ideographic comma, a space
  and four digits: it is one paragraph before the post-filter, and nothing is returned.
\<close>

theorem C10_cjk_witness:
  "list_all (\<lambda>c. is_digit c \<or> is_space c \<or> \<not> is_word c)
     [0x4E2D, 0x534E, 0x4EBA, 0x6C11, 0x5171, 0x548C, 0x56FD, 0x6C11, 0x6CD5, 0x5178,
      0x7B2C, 0x4E00, 0x7F16, 0x603B, 0x5219, 0x3001, SP, 0x32, 0x30, 0x32, 0x30] \<and>
   detectParagraphs
     [0x4E2D, 0x534E, 0x4EBA, 0x6C11, 0x5171, 0x548C, 0x56FD, 0x6C11, 0x6CD5, 0x5178,
      0x7B2C, 0x4E00, 0x7F16, 0x603B, 0x5219, 0x3001, SP, 0x32, 0x30, 0x32, 0x30] = Some []"
proof -
  let ?z = "[0x4E2D, 0x534E, 0x4EBA, 0x6C11, 0x5171, 0x548C, 0x56FD, 0x6C11, 0x6CD5, 0x5178,
      0x7B2C, 0x4E00, 0x7F16, 0x603B, 0x5219, 0x3001, SP, 0x32, 0x30, 0x32, 0x30] :: jsstring"
  have n: "list_all (\<lambda>c. is_digit c \<or> is_space c \<or> \<not> is_word c) ?z"
    by (simp add: class_defs)
  have g: "group_lines (split_lines (normalizeText ?z)) = Some [?z]"
    by (simp add: class_defs seg_defs)
  from C10_output_paragraphs_have_a_letter [of ?z] obtain ps where
    ps: "detectParagraphs ?z = Some ps" "?z \<notin> set ps"
    using n by blast
  from ps(1) have "ps = filter keep_paragraph [?z]"
    by (simp add: detectParagraphs_def g trim_def is_space_def is_line_terminator_def)
  with ps(2) have "ps = []" by (cases "keep_paragraph ?z") auto
  with ps(1) n show ?thesis by simp
qed

end
